theory Spec2Isabelle
  imports Main "HOL-Library.Multiset"
begin

section \<open>Knight's tour by Warnsdorff's heuristic: the engine of \<^verbatim>\<open>src/main.py\<close>\<close>

text \<open>
  The class \<^verbatim>\<open>KnightsTour\<close> is embedded with its three attributes as a record, Python's
  unbounded integers as \<open>int\<close>, the board as a list of rows, an exception as the left
  summand of a sum type, and the mutation of \<^verbatim>\<open>self.board\<close> as explicit state passing.
\<close>

subsection \<open>Data\<close>

type_synonym square = "int \<times> int"

text \<open>Line 17: the eight knight offsets, in their declared order.\<close>

definition KNIGHT_MOVES :: "(int \<times> int) list" where
  "KNIGHT_MOVES = [(2, 1), (1, 2), (- 1, 2), (- 2, 1), (- 2, - 1), (- 1, - 2), (1, - 2), (2, - 1)]"

datatype py_error = ValueError | IndexError

record KnightsTour =
  self_n :: int
  self_start :: "int \<times> int"
  self_board :: "int list list"

subsection \<open>Python list primitives\<close>

text \<open>\<^verbatim>\<open>range(n)\<close> is empty for \<open>n \<le> 0\<close>.\<close>

definition py_range :: "int \<Rightarrow> int list" where
  "py_range k = map int [0..<nat k]"

text \<open>
  \<^verbatim>\<open>xs[i]\<close> and \<^verbatim>\<open>xs[i] = v\<close>: a negative index counts from the end, and an index
  outside \<open>[-len, len)\<close> raises \<^verbatim>\<open>IndexError\<close>.
\<close>

definition py_getitem :: "'a list \<Rightarrow> int \<Rightarrow> py_error + 'a" where
  "py_getitem xs i =
     (let len = int (length xs); j = (if i < 0 then i + len else i)
      in if 0 \<le> j \<and> j < len then Inr (xs ! nat j) else Inl IndexError)"

definition py_setitem :: "'a list \<Rightarrow> int \<Rightarrow> 'a \<Rightarrow> py_error + 'a list" where
  "py_setitem xs i v =
     (let len = int (length xs); j = (if i < 0 then i + len else i)
      in if 0 \<le> j \<and> j < len then Inr (xs[nat j := v]) else Inl IndexError)"

text \<open>The position a Python index denotes in a list of the given length.\<close>

definition py_pos :: "nat \<Rightarrow> int \<Rightarrow> nat" where
  "py_pos len i = nat (if i < 0 then i + int len else i)"

text \<open>
  \<^verbatim>\<open>board[r][c] = v\<close>: the row is fetched first, then written in place. The rows are
  distinct objects (each comes from its own inner comprehension), so only row \<open>r\<close> changes.
\<close>

definition board_assign :: "int list list \<Rightarrow> int \<Rightarrow> int \<Rightarrow> int \<Rightarrow> py_error + int list list" where
  "board_assign b r c v =
     (case py_getitem b r of
        Inl e \<Rightarrow> Inl e
      | Inr row \<Rightarrow>
          (case py_setitem row c v of
             Inl e \<Rightarrow> Inl e
           | Inr row' \<Rightarrow> Inr (b[py_pos (length b) r := row'])))"

subsection \<open>Construction\<close>

text \<open>Lines 26 and 49: \<^verbatim>\<open>[[-1 for i in range(n)] for i in range(n)]\<close>.\<close>

definition fresh_board :: "int \<Rightarrow> int list list" where
  "fresh_board k = map (\<lambda>i. map (\<lambda>i. - 1) (py_range k)) (py_range k)"

text \<open>Lines 20-26, \<^verbatim>\<open>__init__\<close>: the only check is on the board size.\<close>

definition init :: "int \<Rightarrow> int \<times> int \<Rightarrow> py_error + KnightsTour" where
  "init k start =
     (if k < 1 then Inl ValueError
      else Inr \<lparr>self_n = k, self_start = start, self_board = fresh_board k\<rparr>)"

subsection \<open>Free squares and legal moves\<close>

text \<open>Lines 28-30.\<close>

definition in_bounds :: "KnightsTour \<Rightarrow> int \<Rightarrow> int \<Rightarrow> bool" where
  "in_bounds kt r c = (0 \<le> r \<and> r < self_n kt \<and> 0 \<le> c \<and> c < self_n kt)"

text \<open>
  Lines 32-34: \<^verbatim>\<open>and\<close> evaluates its right operand, the read of the cell, only when the
  bounds check holds.
\<close>

definition is_free :: "KnightsTour \<Rightarrow> int \<Rightarrow> int \<Rightarrow> py_error + bool" where
  "is_free kt r c =
     (if in_bounds kt r c then
        (case py_getitem (self_board kt) r of
           Inl e \<Rightarrow> Inl e
         | Inr row \<Rightarrow>
             (case py_getitem row c of
                Inl e \<Rightarrow> Inl e
              | Inr v \<Rightarrow> Inr (v = - 1)))
      else Inr False)"

text \<open>
  Lines 36-38: the comprehension walks the offsets from left to right; an exception in the
  filter would abandon the whole list.
\<close>

fun neighbors_from :: "KnightsTour \<Rightarrow> int \<Rightarrow> int \<Rightarrow> (int \<times> int) list \<Rightarrow> py_error + square list" where
  "neighbors_from kt r c [] = Inr []"
| "neighbors_from kt r c ((dr, dc) # offs) =
     (case is_free kt (r + dr) (c + dc) of
        Inl e \<Rightarrow> Inl e
      | Inr free \<Rightarrow>
          (case neighbors_from kt r c offs of
             Inl e \<Rightarrow> Inl e
           | Inr rest \<Rightarrow> Inr (if free then (r + dr, c + dc) # rest else rest)))"

definition neighbors :: "KnightsTour \<Rightarrow> int \<Rightarrow> int \<Rightarrow> py_error + square list" where
  "neighbors kt r c = neighbors_from kt r c KNIGHT_MOVES"

subsection \<open>Warnsdorff ranking\<close>

text \<open>
  Lines 40-44. \<^verbatim>\<open>list.sort(key=...)\<close> calls the key function once per element, in list
  order, and then sorts stably by the keys: the keys are computed first, the pairs of key
  and move are sorted on the key by the stable insertion sort \<open>sort_key\<close>, and the keys
  are dropped.
\<close>

fun onward_counts :: "KnightsTour \<Rightarrow> square list \<Rightarrow> py_error + nat list" where
  "onward_counts kt [] = Inr []"
| "onward_counts kt (pos # ps) =
     (case neighbors kt (fst pos) (snd pos) of
        Inl e \<Rightarrow> Inl e
      | Inr ns \<Rightarrow>
          (case onward_counts kt ps of
             Inl e \<Rightarrow> Inl e
           | Inr ks \<Rightarrow> Inr (length ns # ks)))"

definition warnsdorff_sort :: "KnightsTour \<Rightarrow> int \<Rightarrow> int \<Rightarrow> py_error + square list" where
  "warnsdorff_sort kt r c =
     (case neighbors kt r c of
        Inl e \<Rightarrow> Inl e
      | Inr moves \<Rightarrow>
          (case onward_counts kt moves of
             Inl e \<Rightarrow> Inl e
           | Inr keys \<Rightarrow> Inr (map snd (sort_key fst (zip keys moves)))))"

subsection \<open>The construction loop\<close>

text \<open>
  How a call of \<^verbatim>\<open>solve_warnsdorff\<close> ends: an exception, or one of its three
  \<^verbatim>\<open>return\<close> statements. Each carries the local \<^verbatim>\<open>path\<close> as it is at that moment,
  which the two \<^verbatim>\<open>return None\<close> then drop.
\<close>

datatype outcome =
    Raised py_error
  | ReturnPath "square list"
  | ReturnNoneDeadEnd "square list"
  | ReturnNoneAfterLoop "square list"

text \<open>What the caller receives.\<close>

fun returned :: "outcome \<Rightarrow> py_error + square list option" where
  "returned (Raised e) = Inl e"
| "returned (ReturnPath p) = Inr (Some p)"
| "returned (ReturnNoneDeadEnd p) = Inr None"
| "returned (ReturnNoneAfterLoop p) = Inr None"

text \<open>Lines 54-55: mark the current square with the step index and append it to the path.\<close>

definition visit :: "KnightsTour \<Rightarrow> square list \<Rightarrow> int \<Rightarrow> int \<Rightarrow> int \<Rightarrow> py_error + KnightsTour \<times> square list" where
  "visit kt path r c step =
     (case board_assign (self_board kt) r c step of
        Inl e \<Rightarrow> Inl e
      | Inr b \<Rightarrow> Inr (kt\<lparr>self_board := b\<rparr>, path @ [(r, c)]))"

text \<open>One pass through the body of the loop, lines 54-62.\<close>

datatype flow = Stop outcome | Continue "square list" int int

definition loop_body :: "KnightsTour \<Rightarrow> square list \<Rightarrow> int \<Rightarrow> int \<Rightarrow> int \<Rightarrow> flow \<times> KnightsTour" where
  "loop_body kt path r c step =
     (case visit kt path r c step of
        Inl e \<Rightarrow> (Stop (Raised e), kt)
      | Inr (kt', path') \<Rightarrow>
          if step = self_n kt' * self_n kt' - 1 then (Stop (ReturnPath path'), kt')
          else
            (case warnsdorff_sort kt' r c of
               Inl e \<Rightarrow> (Stop (Raised e), kt')
             | Inr next_moves \<Rightarrow>
                 (case next_moves of
                    [] \<Rightarrow> (Stop (ReturnNoneDeadEnd path'), kt')
                  | (r', c') # _ \<Rightarrow> (Continue path' r' c', kt'))))"

text \<open>Line 53, \<^verbatim>\<open>for step in range(self.n * self.n)\<close>, and line 63 after it.\<close>

function tour_loop :: "KnightsTour \<Rightarrow> square list \<Rightarrow> int \<Rightarrow> int \<Rightarrow> int \<Rightarrow> outcome \<times> KnightsTour" where
  "tour_loop kt path r c step =
     (if step < self_n kt * self_n kt then
        (case loop_body kt path r c step of
           (Stop out, kt') \<Rightarrow> (out, kt')
         | (Continue path' r' c', kt') \<Rightarrow> tour_loop kt' path' r' c' (step + 1))
      else (ReturnNoneAfterLoop path, kt))"
  by pat_completeness auto
termination
  apply (relation "measure (\<lambda>(kt, path, r, c, step). nat (self_n kt * self_n kt - step))")
   apply simp
  apply (auto simp: loop_body_def visit_def split: sum.splits if_splits list.splits prod.splits)
  done

declare tour_loop.simps [simp del]

text \<open>
  Lines 46-63, keeping which \<^verbatim>\<open>return\<close> was taken; \<open>solve_warnsdorff\<close> below is what
  the caller sees.
\<close>

definition solve_outcome :: "KnightsTour \<Rightarrow> outcome \<times> KnightsTour" where
  "solve_outcome kt =
     (case self_start kt of
        (r0, c0) \<Rightarrow> tour_loop (kt\<lparr>self_board := fresh_board (self_n kt)\<rparr>) [] r0 c0 0)"

definition solve_warnsdorff :: "KnightsTour \<Rightarrow> (py_error + square list option) \<times> KnightsTour" where
  "solve_warnsdorff kt = (case solve_outcome kt of (out, kt') \<Rightarrow> (returned out, kt'))"

subsection \<open>Vocabulary of the specification\<close>

text \<open>
  A board of the engine's size: \<open>n\<close> rows of \<open>n\<close> cells. Every board that \<open>init\<close> or
  \<open>solve_warnsdorff\<close> stores is of this shape (lemmas \<open>init_wf_board\<close>,
  \<open>solve_outcome_wf_board\<close> below).
\<close>

definition wf_board :: "KnightsTour \<Rightarrow> bool" where
  "wf_board kt =
     (length (self_board kt) = nat (self_n kt) \<and>
      (\<forall>row \<in> set (self_board kt). length row = nat (self_n kt)))"

text \<open>The cell of an in-bounds square, read without Python's index arithmetic.\<close>

definition cell :: "KnightsTour \<Rightarrow> int \<Rightarrow> int \<Rightarrow> int" where
  "cell kt r c = self_board kt ! nat r ! nat c"

definition free_square :: "KnightsTour \<Rightarrow> square \<Rightarrow> bool" where
  "free_square kt p = (in_bounds kt (fst p) (snd p) \<and> cell kt (fst p) (snd p) = - 1)"

text \<open>The eight squares a knight on \<open>(r, c)\<close> attacks, in offset order.\<close>

definition targets :: "int \<Rightarrow> int \<Rightarrow> square list" where
  "targets r c = map (\<lambda>(dr, dc). (r + dr, c + dc)) KNIGHT_MOVES"

text \<open>Onward mobility of a candidate: the number of its legal moves on the current board.\<close>

definition mobility :: "KnightsTour \<Rightarrow> square \<Rightarrow> nat" where
  "mobility kt p = (case neighbors kt (fst p) (snd p) of Inl e \<Rightarrow> 0 | Inr ns \<Rightarrow> length ns)"

text \<open>The second square is one knight offset away from the first.\<close>

definition knight_step :: "square \<Rightarrow> square \<Rightarrow> bool" where
  "knight_step p q = ((fst q - fst p, snd q - snd p) \<in> set KNIGHT_MOVES)"

definition knight_path :: "square list \<Rightarrow> bool" where
  "knight_path path = (\<forall>i. Suc i < length path \<longrightarrow> knight_step (path ! i) (path ! Suc i))"

text \<open>
  The invariant of section 3 of the specification that ties the board to the path: no
  square occurs twice in the path, its squares are in bounds, a cell of the board holds a
  step index (not the sentinel) exactly when its square is in the path, and that index is
  the position of the square in the path.
\<close>

definition board_matches_path :: "KnightsTour \<Rightarrow> square list \<Rightarrow> bool" where
  "board_matches_path kt path =
     (distinct path \<and>
      (\<forall>p \<in> set path. in_bounds kt (fst p) (snd p)) \<and>
      (\<forall>r c. in_bounds kt r c \<longrightarrow> (cell kt r c \<noteq> - 1) = ((r, c) \<in> set path)) \<and>
      (\<forall>i < length path. cell kt (fst (path ! i)) (snd (path ! i)) = int i))"

text \<open>The engine after \<^verbatim>\<open>board[r][c] = v\<close> on an in-bounds square.\<close>

definition mark :: "KnightsTour \<Rightarrow> int \<Rightarrow> int \<Rightarrow> int \<Rightarrow> KnightsTour" where
  "mark kt r c v =
     kt\<lparr>self_board := (self_board kt)[nat r := (self_board kt ! nat r)[nat c := v]]\<rparr>"

text \<open>
  What holds of the variables at the head of the loop, line 53, before the pass for
  \<open>step\<close>: the square \<open>(r, c)\<close> about to be visited is in bounds and not yet in the path,
  and for a non-empty path it is one knight offset from the last square of the path.
\<close>

definition loop_inv :: "KnightsTour \<Rightarrow> square list \<Rightarrow> int \<Rightarrow> int \<Rightarrow> int \<Rightarrow> bool" where
  "loop_inv kt path r c step =
     (wf_board kt \<and> step = int (length path) \<and> step < self_n kt * self_n kt \<and>
      board_matches_path kt path \<and> knight_path path \<and>
      in_bounds kt r c \<and> (r, c) \<notin> set path \<and>
      (path = [] \<or> knight_step (last path) (r, c)))"

text \<open>
  What holds when the loop is left: it is left by the \<^verbatim>\<open>return\<close> of line 57 with a
  path of \<open>n * n\<close> squares or by that of line 60 with a shorter one whose last square
  has no legal move, and the board matches the path.
\<close>

definition tour_end :: "KnightsTour \<Rightarrow> outcome \<Rightarrow> KnightsTour \<Rightarrow> bool" where
  "tour_end kt out kt' =
     (self_n kt' = self_n kt \<and> self_start kt' = self_start kt \<and> wf_board kt' \<and>
      (case out of
         ReturnPath p \<Rightarrow>
           int (length p) = self_n kt * self_n kt \<and> board_matches_path kt' p \<and> knight_path p
       | ReturnNoneDeadEnd p \<Rightarrow>
           p \<noteq> [] \<and> int (length p) < self_n kt * self_n kt \<and> board_matches_path kt' p \<and>
           knight_path p \<and> neighbors kt' (fst (last p)) (snd (last p)) = Inr []
       | Raised e \<Rightarrow> False
       | ReturnNoneAfterLoop p \<Rightarrow> False))"

text \<open>
  The points of a run of \<^verbatim>\<open>solve_warnsdorff\<close>: \<open>loop_head kt0 k\<close> is the engine and the
  local variables \<^verbatim>\<open>path\<close>, \<^verbatim>\<open>r\<close>, \<^verbatim>\<open>c\<close>, \<^verbatim>\<open>step\<close> at the head of the loop
  when pass \<open>k\<close> is about to begin, and \<open>None\<close> when the run has ended before that.
  The state between lines 55 and 56 of that pass is \<open>visit\<close> of it.
\<close>

fun loop_head :: "KnightsTour \<Rightarrow> nat \<Rightarrow> (KnightsTour \<times> square list \<times> int \<times> int \<times> int) option" where
  "loop_head kt0 0 =
     (case self_start kt0 of
        (r0, c0) \<Rightarrow> Some (kt0\<lparr>self_board := fresh_board (self_n kt0)\<rparr>, [], r0, c0, 0))"
| "loop_head kt0 (Suc k) =
     (case loop_head kt0 k of
        None \<Rightarrow> None
      | Some (kt, path, r, c, step) \<Rightarrow>
          if step < self_n kt * self_n kt then
            (case loop_body kt path r c step of
               (Stop out, kt') \<Rightarrow> None
             | (Continue path' r' c', kt') \<Rightarrow> Some (kt', path', r', c', step + 1))
          else None)"

subsection \<open>Example engines\<close>

text \<open>Engines as \<open>init\<close> builds them, and a 3 by 3 engine two steps into a run.\<close>

definition engine :: "int \<Rightarrow> int \<times> int \<Rightarrow> KnightsTour" where
  "engine k start = \<lparr>self_n = k, self_start = start, self_board = fresh_board k\<rparr>"

definition midgame3 :: KnightsTour where
  "midgame3 = \<lparr>self_n = 3, self_start = (0, 0),
     self_board = [[0, - 1, - 1], [- 1, - 1, - 1], [- 1, 1, - 1]]\<rparr>"

section \<open>Basic facts\<close>

subsection \<open>Reads and ranking on a board of the right shape\<close>

lemma py_getitem_nat: "0 \<le> i \<Longrightarrow> i < int (length xs) \<Longrightarrow> py_getitem xs i = Inr (xs ! nat i)"
  by (simp add: py_getitem_def)

lemma py_setitem_nat: "0 \<le> i \<Longrightarrow> i < int (length xs) \<Longrightarrow> py_setitem xs i v = Inr (xs[nat i := v])"
  by (simp add: py_setitem_def)

lemma wf_board_row: "wf_board kt \<Longrightarrow> in_bounds kt r c \<Longrightarrow> length (self_board kt ! nat r) = nat (self_n kt)"
  by (simp add: wf_board_def in_bounds_def)

lemma is_free_wf: "wf_board kt \<Longrightarrow> is_free kt r c = Inr (free_square kt (r, c))"
proof (cases "in_bounds kt r c")
  case False
  then show ?thesis by (simp add: is_free_def free_square_def)
next
  case True
  assume wf: "wf_board kt"
  from True wf have r: "0 \<le> r" "r < int (length (self_board kt))"
    by (simp_all add: in_bounds_def wf_board_def)
  from True wf_board_row [OF wf True] have c: "0 \<le> c" "c < int (length (self_board kt ! nat r))"
    by (simp_all add: in_bounds_def)
  show ?thesis
    using True by (simp add: is_free_def free_square_def cell_def py_getitem_nat [OF r] py_getitem_nat [OF c])
qed

lemma neighbors_from_wf:
  "wf_board kt \<Longrightarrow> neighbors_from kt r c offs
     = Inr (filter (free_square kt) (map (\<lambda>(dr, dc). (r + dr, c + dc)) offs))"
  by (induction offs) (auto simp: is_free_wf)

lemma neighbors_wf: "wf_board kt \<Longrightarrow> neighbors kt r c = Inr (filter (free_square kt) (targets r c))"
  by (simp add: neighbors_def targets_def neighbors_from_wf)

lemma mobility_wf: "wf_board kt \<Longrightarrow> mobility kt p = length (filter (free_square kt) (targets (fst p) (snd p)))"
  by (simp add: mobility_def neighbors_wf)

lemma onward_counts_wf: "wf_board kt \<Longrightarrow> onward_counts kt ps = Inr (map (mobility kt) ps)"
  by (induction ps) (auto simp: neighbors_wf mobility_def)

lemma sort_key_decorated_aux:
  "sort_key fst (map (\<lambda>y. (f y, y)) xs) = map (\<lambda>y. (f y, y)) (sort_key f xs)"
proof (induction xs)
  case Nil
  then show ?case by simp
next
  case (Cons x xs)
  have "insort_key fst (f x, x) (map (\<lambda>y. (f y, y)) ys) = map (\<lambda>y. (f y, y)) (insort_key f x ys)" for ys
    by (induction ys) auto
  with Cons show ?case by simp
qed

lemma sort_key_decorated: "map snd (sort_key fst (zip (map f xs) xs)) = sort_key f xs"
proof -
  have "zip (map f xs) xs = map (\<lambda>y. (f y, y)) xs"
    by (induction xs) auto
  then show ?thesis
    by (simp add: sort_key_decorated_aux comp_def)
qed

lemma warnsdorff_sort_wf:
  "wf_board kt \<Longrightarrow> warnsdorff_sort kt r c
     = Inr (sort_key (mobility kt) (filter (free_square kt) (targets r c)))"
  by (simp add: warnsdorff_sort_def neighbors_wf onward_counts_wf sort_key_decorated)

subsection \<open>Marking a square\<close>

lemma board_assign_in_bounds:
  assumes "wf_board kt" "in_bounds kt r c"
  shows "board_assign (self_board kt) r c v = Inr (self_board (mark kt r c v))"
proof -
  from assms have r: "0 \<le> r" "r < int (length (self_board kt))"
    by (simp_all add: in_bounds_def wf_board_def)
  from assms wf_board_row [OF assms] have c: "0 \<le> c" "c < int (length (self_board kt ! nat r))"
    by (simp_all add: in_bounds_def)
  from r have "py_pos (length (self_board kt)) r = nat r"
    by (simp add: py_pos_def)
  then show ?thesis
    by (simp add: board_assign_def mark_def py_getitem_nat [OF r] py_setitem_nat [OF c])
qed

lemma visit_in_bounds:
  "wf_board kt \<Longrightarrow> in_bounds kt r c \<Longrightarrow> visit kt path r c v = Inr (mark kt r c v, path @ [(r, c)])"
  by (simp add: visit_def board_assign_in_bounds) (simp add: mark_def)

lemma mark_n [simp]: "self_n (mark kt r c v) = self_n kt"
  by (simp add: mark_def)

lemma mark_start [simp]: "self_start (mark kt r c v) = self_start kt"
  by (simp add: mark_def)

lemma in_bounds_mark [simp]: "in_bounds (mark kt r c v) = in_bounds kt"
  by (simp add: in_bounds_def fun_eq_iff)

lemma wf_board_mark: "wf_board kt \<Longrightarrow> in_bounds kt r c \<Longrightarrow> wf_board (mark kt r c v)"
proof -
  assume wf: "wf_board kt" and ib: "in_bounds kt r c"
  let ?b = "self_board kt"
  have "set (?b[nat r := (?b ! nat r)[nat c := v]]) \<subseteq> insert ((?b ! nat r)[nat c := v]) (set ?b)"
    by (rule set_update_subset_insert)
  moreover have "length ((?b ! nat r)[nat c := v]) = nat (self_n kt)"
    using wf_board_row [OF wf ib] by simp
  ultimately show ?thesis
    using wf by (auto simp: wf_board_def mark_def)
qed

lemma cell_mark:
  assumes "wf_board kt" "in_bounds kt r c" "in_bounds kt r' c'"
  shows "cell (mark kt r c v) r' c' = (if r' = r \<and> c' = c then v else cell kt r' c')"
proof -
  let ?b = "self_board kt"
  from assms have r: "nat r < length ?b" and r': "nat r' < length ?b"
    by (simp_all add: in_bounds_def wf_board_def)
  from assms wf_board_row [OF assms(1,2)] have c: "nat c < length (?b ! nat r)"
    by (simp add: in_bounds_def)
  from assms have eqs: "(nat r = nat r') = (r' = r)" "(nat c = nat c') = (c' = c)"
    by (auto simp: in_bounds_def)
  show ?thesis
  proof (cases "r' = r")
    case True
    then show ?thesis
      using r c eqs by (simp add: cell_def mark_def nth_list_update)
  next
    case False
    then show ?thesis
      using r r' eqs by (simp add: cell_def mark_def nth_list_update)
  qed
qed

lemma board_matches_path_mark:
  assumes wf: "wf_board kt" and ib: "in_bounds kt r c"
    and m: "board_matches_path kt path" and new: "(r, c) \<notin> set path"
  shows "board_matches_path (mark kt r c (int (length path))) (path @ [(r, c)])"
proof -
  let ?kt = "mark kt r c (int (length path))"
  from m have d: "distinct path"
    and inb: "\<forall>p \<in> set path. in_bounds kt (fst p) (snd p)"
    and idx: "\<forall>i < length path. cell kt (fst (path ! i)) (snd (path ! i)) = int i"
    and rest: "\<forall>r c. in_bounds kt r c \<longrightarrow> (cell kt r c \<noteq> - 1) = ((r, c) \<in> set path)"
    by (simp_all add: board_matches_path_def)
  have 1: "distinct (path @ [(r, c)])"
    using d new by simp
  have 2: "\<forall>p \<in> set (path @ [(r, c)]). in_bounds ?kt (fst p) (snd p)"
    using inb ib by auto
  have 3: "cell ?kt (fst ((path @ [(r, c)]) ! i)) (snd ((path @ [(r, c)]) ! i)) = int i"
    if "i < length (path @ [(r, c)])" for i
  proof (cases "i < length path")
    case True
    then have mem: "path ! i \<in> set path" by simp
    with new have ne: "path ! i \<noteq> (r, c)" by metis
    from mem inb have "in_bounds kt (fst (path ! i)) (snd (path ! i))" by blast
    from cell_mark [OF wf ib this] ne idx True show ?thesis
      by (auto simp: nth_append prod_eq_iff)
  next
    case False
    with that have "i = length path" by simp
    then show ?thesis
      using cell_mark [OF wf ib ib] by (simp add: nth_append)
  qed
  have 4: "(cell ?kt r' c' \<noteq> - 1) = ((r', c') \<in> set (path @ [(r, c)]))" if "in_bounds ?kt r' c'" for r' c'
  proof -
    from that have ib': "in_bounds kt r' c'" by simp
    show ?thesis
      using cell_mark [OF wf ib ib'] rest ib' by auto
  qed
  from 1 2 3 4 show ?thesis
    unfolding board_matches_path_def by blast
qed

subsection \<open>One pass of the loop preserves the invariant\<close>

lemma targets_knight_step: "q \<in> set (targets r c) \<Longrightarrow> knight_step (r, c) q"
  by (auto simp: targets_def knight_step_def)

lemma knight_path_snoc:
  assumes "knight_path path" "path = [] \<or> knight_step (last path) q"
  shows "knight_path (path @ [q])"
  unfolding knight_path_def
proof (intro allI impI)
  fix i
  assume i: "Suc i < length (path @ [q])"
  show "knight_step ((path @ [q]) ! i) ((path @ [q]) ! Suc i)"
  proof (cases "Suc i < length path")
    case True
    with assms(1) show ?thesis
      by (simp add: knight_path_def nth_append)
  next
    case False
    with i have len: "Suc i = length path" by simp
    then have ne: "path \<noteq> []" by auto
    from len have "i = length path - 1" by simp
    with ne have "path ! i = last path"
      by (simp add: last_conv_nth)
    with assms(2) ne len show ?thesis
      by (simp add: nth_append)
  qed
qed

lemma free_square_not_in_path:
  assumes "board_matches_path kt path" "free_square kt q"
  shows "q \<notin> set path"
  using assms by (cases q) (auto simp: board_matches_path_def free_square_def)

lemma loop_body_last:
  assumes "loop_inv kt path r c step" "step = self_n kt * self_n kt - 1"
  shows "loop_body kt path r c step = (Stop (ReturnPath (path @ [(r, c)])), mark kt r c step)"
  using assms by (simp add: loop_inv_def loop_body_def visit_in_bounds)

lemma loop_body_dead_end:
  assumes "loop_inv kt path r c step" "step \<noteq> self_n kt * self_n kt - 1"
    "filter (free_square (mark kt r c step)) (targets r c) = []"
  shows "loop_body kt path r c step = (Stop (ReturnNoneDeadEnd (path @ [(r, c)])), mark kt r c step)"
proof -
  from assms(1) have wf: "wf_board kt" and ib: "in_bounds kt r c"
    by (simp_all add: loop_inv_def)
  from assms(2,3) show ?thesis
    by (simp add: loop_body_def visit_in_bounds [OF wf ib] warnsdorff_sort_wf [OF wf_board_mark [OF wf ib]])
qed

lemma loop_body_continue:
  assumes inv: "loop_inv kt path r c step" and ne: "step \<noteq> self_n kt * self_n kt - 1"
    and mv: "filter (free_square (mark kt r c step)) (targets r c) \<noteq> []"
  shows "\<exists>r' c'. loop_body kt path r c step = (Continue (path @ [(r, c)]) r' c', mark kt r c step)
           \<and> loop_inv (mark kt r c step) (path @ [(r, c)]) r' c' (step + 1)"
proof -
  let ?kt = "mark kt r c step" and ?path = "path @ [(r, c)]"
  let ?ms = "sort_key (mobility ?kt) (filter (free_square ?kt) (targets r c))"
  from inv have wf: "wf_board kt" and ib: "in_bounds kt r c" and st: "step = int (length path)"
    and lt: "step < self_n kt * self_n kt" and m: "board_matches_path kt path"
    and kp: "knight_path path" and new: "(r, c) \<notin> set path"
    and adj: "path = [] \<or> knight_step (last path) (r, c)"
    by (simp_all add: loop_inv_def)
  have wf': "wf_board ?kt" by (rule wf_board_mark [OF wf ib])
  have m': "board_matches_path ?kt ?path"
    using board_matches_path_mark [OF wf ib m new] st by simp
  from mv have "?ms \<noteq> []"
    by (metis length_0_conv length_sort)
  then obtain q qs where ms: "?ms = q # qs"
    by (cases ?ms) auto
  obtain r' c' where q: "q = (r', c')" by (cases q)
  have "q \<in> set ?ms" by (simp add: ms)
  then have qf: "free_square ?kt q" and qt: "q \<in> set (targets r c)"
    by simp_all
  have body: "loop_body kt path r c step = (Continue ?path r' c', ?kt)"
    using ne ms q by (simp add: loop_body_def visit_in_bounds [OF wf ib] warnsdorff_sort_wf [OF wf'])
  have "loop_inv ?kt ?path r' c' (step + 1)"
    unfolding loop_inv_def
  proof (intro conjI)
    show "wf_board ?kt" by (rule wf')
    show "step + 1 = int (length ?path)" using st by simp
    show "step + 1 < self_n ?kt * self_n ?kt" using lt ne by simp
    show "board_matches_path ?kt ?path" by (rule m')
    show "knight_path ?path" by (rule knight_path_snoc [OF kp adj])
    show "in_bounds ?kt r' c'" using qf q by (simp add: free_square_def)
    show "(r', c') \<notin> set ?path" using free_square_not_in_path [OF m' qf] q by simp
    show "?path = [] \<or> knight_step (last ?path) (r', c')"
      using targets_knight_step [OF qt] q by simp
  qed
  with body show ?thesis by blast
qed

lemma tour_end_last:
  assumes "loop_inv kt path r c step" "step = self_n kt * self_n kt - 1"
  shows "tour_end kt (ReturnPath (path @ [(r, c)])) (mark kt r c step)"
proof -
  from assms(1) have wf: "wf_board kt" and ib: "in_bounds kt r c" and st: "step = int (length path)"
    and m: "board_matches_path kt path" and kp: "knight_path path" and new: "(r, c) \<notin> set path"
    and adj: "path = [] \<or> knight_step (last path) (r, c)"
    by (simp_all add: loop_inv_def)
  show ?thesis
    using wf_board_mark [OF wf ib] board_matches_path_mark [OF wf ib m new] knight_path_snoc [OF kp adj]
      st assms(2)
    by (simp add: tour_end_def)
qed

lemma tour_end_dead_end:
  assumes "loop_inv kt path r c step" "step \<noteq> self_n kt * self_n kt - 1"
    "filter (free_square (mark kt r c step)) (targets r c) = []"
  shows "tour_end kt (ReturnNoneDeadEnd (path @ [(r, c)])) (mark kt r c step)"
proof -
  from assms(1) have wf: "wf_board kt" and ib: "in_bounds kt r c" and st: "step = int (length path)"
    and lt: "step < self_n kt * self_n kt"
    and m: "board_matches_path kt path" and kp: "knight_path path" and new: "(r, c) \<notin> set path"
    and adj: "path = [] \<or> knight_step (last path) (r, c)"
    by (simp_all add: loop_inv_def)
  show ?thesis
    using wf_board_mark [OF wf ib] board_matches_path_mark [OF wf ib m new] knight_path_snoc [OF kp adj]
      st lt assms(2,3)
    by (simp add: tour_end_def neighbors_wf)
qed

lemma tour_end_trans: "tour_end kt' out kt'' \<Longrightarrow> self_n kt' = self_n kt \<Longrightarrow> self_start kt' = self_start kt
  \<Longrightarrow> tour_end kt out kt''"
  by (cases out) (simp_all add: tour_end_def)

lemma tour_loop_end:
  "loop_inv kt path r c step \<Longrightarrow> tour_loop kt path r c step = (out, kt'') \<Longrightarrow> tour_end kt out kt''"
proof (induction kt path r c step rule: tour_loop.induct)
  case (1 kt path r c step)
  from "1.prems"(1) have lt: "step < self_n kt * self_n kt"
    by (simp add: loop_inv_def)
  show ?case
  proof (cases "step = self_n kt * self_n kt - 1")
    case True
    from loop_body_last [OF "1.prems"(1) True] "1.prems"(2) lt
    have "out = ReturnPath (path @ [(r, c)])" "kt'' = mark kt r c step"
      by (simp_all add: tour_loop.simps [of kt path r c step])
    with tour_end_last [OF "1.prems"(1) True] show ?thesis by simp
  next
    case False
    show ?thesis
    proof (cases "filter (free_square (mark kt r c step)) (targets r c) = []")
      case True
      from loop_body_dead_end [OF "1.prems"(1) False True] "1.prems"(2) lt
      have "out = ReturnNoneDeadEnd (path @ [(r, c)])" "kt'' = mark kt r c step"
        by (simp_all add: tour_loop.simps [of kt path r c step])
      with tour_end_dead_end [OF "1.prems"(1) False True] show ?thesis by simp
    next
      case mv: False
      from loop_body_continue [OF "1.prems"(1) False mv]
      obtain r' c' where body: "loop_body kt path r c step = (Continue (path @ [(r, c)]) r' c', mark kt r c step)"
        and inv': "loop_inv (mark kt r c step) (path @ [(r, c)]) r' c' (step + 1)"
        by blast
      from body "1.prems"(2) lt
      have run: "tour_loop (mark kt r c step) (path @ [(r, c)]) r' c' (step + 1) = (out, kt'')"
        by (simp add: tour_loop.simps [of kt path r c step])
      have "tour_end (mark kt r c step) out kt''"
        by (rule "1.IH" [OF lt body [symmetric] refl inv' run])
      then show ?thesis
        by (rule tour_end_trans) simp_all
    qed
  qed
qed

subsection \<open>The whole run\<close>

lemma fresh_board_replicate: "fresh_board k = replicate (nat k) (replicate (nat k) (- 1))"
  by (simp add: fresh_board_def py_range_def map_replicate_const)

lemma wf_board_fresh: "self_board kt = fresh_board (self_n kt) \<Longrightarrow> wf_board kt"
  by (simp add: wf_board_def fresh_board_replicate)

lemma cell_fresh:
  "self_board kt = fresh_board (self_n kt) \<Longrightarrow> in_bounds kt r c \<Longrightarrow> cell kt r c = - 1"
  by (simp add: cell_def fresh_board_replicate in_bounds_def)

lemma board_matches_path_fresh:
  "self_board kt = fresh_board (self_n kt) \<Longrightarrow> board_matches_path kt []"
  by (simp add: board_matches_path_def cell_fresh)

lemma loop_inv_start:
  assumes "1 \<le> self_n kt" "in_bounds kt r0 c0"
  shows "loop_inv (kt\<lparr>self_board := fresh_board (self_n kt)\<rparr>) [] r0 c0 0"
proof -
  let ?kt = "kt\<lparr>self_board := fresh_board (self_n kt)\<rparr>"
  have fresh: "self_board ?kt = fresh_board (self_n ?kt)" by simp
  from assms(1) have "0 < self_n kt * self_n kt"
    by (simp add: zero_less_mult_iff)
  with assms(2) wf_board_fresh [OF fresh] board_matches_path_fresh [OF fresh]
  show ?thesis
    by (simp add: loop_inv_def knight_path_def in_bounds_def)
qed

lemma solve_outcome_end:
  assumes "1 \<le> self_n kt" "in_bounds kt (fst (self_start kt)) (snd (self_start kt))"
    "solve_outcome kt = (out, kt')"
  shows "tour_end kt out kt'"
proof -
  obtain r0 c0 where s: "self_start kt = (r0, c0)" by (cases "self_start kt")
  let ?kt = "kt\<lparr>self_board := fresh_board (self_n kt)\<rparr>"
  from assms(2) s have "in_bounds kt r0 c0" by simp
  from loop_inv_start [OF assms(1) this] have inv: "loop_inv ?kt [] r0 c0 0" .
  from assms(3) s have "tour_loop ?kt [] r0 c0 0 = (out, kt')"
    by (simp add: solve_outcome_def)
  from tour_loop_end [OF inv this] show ?thesis
    by (rule tour_end_trans) simp_all
qed

lemma init_wf_board: "init k s = Inr kt \<Longrightarrow> wf_board kt"
  by (auto simp: init_def wf_board_fresh split: if_splits)

lemma solve_outcome_wf_board:
  "1 \<le> self_n kt \<Longrightarrow> in_bounds kt (fst (self_start kt)) (snd (self_start kt)) \<Longrightarrow>
   solve_outcome kt = (out, kt') \<Longrightarrow> wf_board kt'"
  by (drule (2) solve_outcome_end) (simp add: tour_end_def)

lemma all_squares_card:
  "card ({0..<k} \<times> {0..<k} :: (int \<times> int) set) = nat k * nat k"
  by (simp add: card_cartesian_product)

lemma path_covers_board:
  assumes d: "distinct p" and inb: "\<forall>q \<in> set p. in_bounds kt (fst q) (snd q)"
    and len: "int (length p) = self_n kt * self_n kt" and pos: "0 \<le> self_n kt"
  shows "set p = {0..<self_n kt} \<times> {0..<self_n kt}"
proof (rule card_subset_eq)
  show "finite ({0..<self_n kt} \<times> {0..<self_n kt})" by simp
  show "set p \<subseteq> {0..<self_n kt} \<times> {0..<self_n kt}"
    using inb by (auto simp: in_bounds_def)
  have "int (card (set p)) = self_n kt * self_n kt"
    using d len by (simp add: distinct_card)
  also have "\<dots> = int (nat (self_n kt) * nat (self_n kt))"
    using pos by (simp add: nat_mult_distrib [symmetric])
  finally show "card (set p) = card ({0..<self_n kt} \<times> {0..<self_n kt})"
    by (simp only: all_squares_card of_nat_eq_iff)
qed

subsection \<open>Offsets and boards that agree\<close>

lemma KNIGHT_MOVES_geometry:
  "((dr, dc) \<in> set KNIGHT_MOVES) = ((\<bar>dr\<bar> = 1 \<and> \<bar>dc\<bar> = 2) \<or> (\<bar>dr\<bar> = 2 \<and> \<bar>dc\<bar> = 1))"
  by (auto simp: KNIGHT_MOVES_def abs_if)

lemma free_square_same_board:
  "self_n kt2 = self_n kt \<Longrightarrow> self_board kt2 = self_board kt \<Longrightarrow> free_square kt2 = free_square kt"
  by (simp add: fun_eq_iff free_square_def in_bounds_def cell_def)

lemma warnsdorff_sort_same_board:
  assumes "wf_board kt" "self_n kt2 = self_n kt" "self_board kt2 = self_board kt"
  shows "warnsdorff_sort kt2 r c = warnsdorff_sort kt r c"
proof -
  from assms have wf2: "wf_board kt2" by (simp add: wf_board_def)
  have "mobility kt2 = mobility kt"
    by (simp add: fun_eq_iff mobility_wf [OF wf2] mobility_wf [OF assms(1)]
        free_square_same_board [OF assms(2,3)])
  then show ?thesis
    by (simp add: warnsdorff_sort_wf [OF wf2] warnsdorff_sort_wf [OF assms(1)]
        free_square_same_board [OF assms(2,3)])
qed

subsection \<open>Consecutive squares of a returned path, on any board\<close>

lemma neighbors_from_subset:
  "neighbors_from kt r c offs = Inr ms \<Longrightarrow> set ms \<subseteq> set (map (\<lambda>(dr, dc). (r + dr, c + dc)) offs)"
proof (induction offs arbitrary: ms)
  case Nil
  then show ?case by simp
next
  case (Cons off offs)
  obtain dr dc where off: "off = (dr, dc)" by (cases off)
  from Cons.prems off obtain free rest where rest: "neighbors_from kt r c offs = Inr rest"
    and ms: "ms = (if free then (r + dr, c + dc) # rest else rest)"
    by (auto split: sum.splits)
  from Cons.IH [OF rest] ms off show ?case by auto
qed

lemma neighbors_subset: "neighbors kt r c = Inr ms \<Longrightarrow> set ms \<subseteq> set (targets r c)"
  unfolding neighbors_def targets_def by (rule neighbors_from_subset)

lemma undecorate_subset: "set (map snd (sort_key fst (zip ks xs))) \<subseteq> set xs"
  by (auto dest: set_zip_rightD)

lemma warnsdorff_sort_subset:
  assumes "warnsdorff_sort kt r c = Inr ms"
  shows "set ms \<subseteq> set (targets r c)"
proof (cases "neighbors kt r c")
  case (Inl e)
  with assms show ?thesis by (simp add: warnsdorff_sort_def)
next
  case (Inr moves)
  show ?thesis
  proof (cases "onward_counts kt moves")
    case (Inl e)
    with assms Inr show ?thesis by (simp add: warnsdorff_sort_def)
  next
    case keys: (Inr keys)
    with assms Inr have "ms = map snd (sort_key fst (zip keys moves))"
      by (simp add: warnsdorff_sort_def)
    then have "set ms \<subseteq> set moves"
      by (simp only: undecorate_subset)
    with neighbors_subset [OF Inr] show ?thesis by blast
  qed
qed

lemma loop_body_Continue:
  assumes "loop_body kt path r c step = (Continue path' r' c', kt')"
  shows "path' = path @ [(r, c)] \<and> knight_step (r, c) (r', c')"
proof -
  from assms obtain kt1 ms where "warnsdorff_sort kt1 r c = Inr ((r', c') # ms)"
    and p: "path' = path @ [(r, c)]"
    by (auto simp: loop_body_def visit_def split: sum.splits if_splits list.splits)
  from warnsdorff_sort_subset [OF this(1)] have "(r', c') \<in> set (targets r c)" by simp
  with p show ?thesis by (simp add: targets_knight_step)
qed

lemma loop_body_ReturnPath:
  "loop_body kt path r c step = (Stop (ReturnPath p), kt') \<Longrightarrow> p = path @ [(r, c)]"
  by (auto simp: loop_body_def visit_def split: sum.splits if_splits list.splits)

lemma tour_loop_knight_path:
  "knight_path path \<Longrightarrow> path = [] \<or> knight_step (last path) (r, c) \<Longrightarrow>
   tour_loop kt path r c step = (ReturnPath p, kt'') \<Longrightarrow> knight_path p"
proof (induction kt path r c step rule: tour_loop.induct)
  case (1 kt path r c step)
  from "1.prems"(3) have lt: "step < self_n kt * self_n kt"
    by (auto simp: tour_loop.simps [of kt path r c step] split: if_splits)
  obtain fl kt' where body: "loop_body kt path r c step = (fl, kt')"
    by (cases "loop_body kt path r c step")
  have snoc: "knight_path (path @ [(r, c)])"
    by (rule knight_path_snoc [OF "1.prems"(1,2)])
  show ?case
  proof (cases fl)
    case (Stop out)
    with body lt "1.prems"(3) have "loop_body kt path r c step = (Stop (ReturnPath p), kt')"
      by (simp add: tour_loop.simps [of kt path r c step])
    from loop_body_ReturnPath [OF this] snoc show ?thesis by simp
  next
    case (Continue path' r' c')
    with body have b: "loop_body kt path r c step = (Continue path' r' c', kt')" by simp
    from loop_body_Continue [OF b] have p: "path' = path @ [(r, c)]"
      and k: "knight_step (r, c) (r', c')" by simp_all
    from b lt "1.prems"(3) have run: "tour_loop kt' path' r' c' (step + 1) = (ReturnPath p, kt'')"
      by (simp add: tour_loop.simps [of kt path r c step])
    show ?thesis
    proof (rule "1.IH" [OF lt b [symmetric] refl _ _ run])
      show "knight_path path'" using snoc p by simp
      show "path' = [] \<or> knight_step (last path') (r', c')" using p k by simp
    qed
  qed
qed

lemma solve_outcome_knight_path:
  assumes "solve_outcome kt = (ReturnPath p, kt')"
  shows "knight_path p"
proof -
  obtain r0 c0 where s: "self_start kt = (r0, c0)" by (cases "self_start kt")
  from assms s
  have run: "tour_loop (kt\<lparr>self_board := fresh_board (self_n kt)\<rparr>) [] r0 c0 0 = (ReturnPath p, kt')"
    by (simp add: solve_outcome_def)
  have "knight_path []" by (simp add: knight_path_def)
  from tour_loop_knight_path [OF this _ run] show ?thesis by simp
qed

subsection \<open>The points of a run\<close>

lemma loop_head_inv:
  assumes n: "1 \<le> self_n kt0" and st: "in_bounds kt0 (fst (self_start kt0)) (snd (self_start kt0))"
  shows "loop_head kt0 k = Some (kt, path, r, c, step) \<Longrightarrow>
         loop_inv kt path r c step \<and> self_n kt = self_n kt0 \<and> self_start kt = self_start kt0 \<and>
         length path = k \<and> (k = 0 \<longrightarrow> (r, c) = self_start kt0)"
proof (induction k arbitrary: kt path r c step)
  case 0
  obtain r0 c0 where s: "self_start kt0 = (r0, c0)" by (cases "self_start kt0")
  with st have "in_bounds kt0 r0 c0" by simp
  from loop_inv_start [OF n this] "0.prems" s show ?case by auto
next
  case (Suc k)
  from Suc.prems obtain kt1 path1 r1 c1 step1
    where head: "loop_head kt0 k = Some (kt1, path1, r1, c1, step1)"
      and lt: "step1 < self_n kt1 * self_n kt1"
      and body: "loop_body kt1 path1 r1 c1 step1 = (Continue path r c, kt)"
      and step: "step = step1 + 1"
    by (auto split: option.splits if_splits prod.splits flow.splits)
  from Suc.IH [OF head] have inv: "loop_inv kt1 path1 r1 c1 step1"
    and same: "self_n kt1 = self_n kt0" "self_start kt1 = self_start kt0" and len: "length path1 = k"
    by simp_all
  have ne: "step1 \<noteq> self_n kt1 * self_n kt1 - 1"
    using loop_body_last [OF inv] body by auto
  have mv: "filter (free_square (mark kt1 r1 c1 step1)) (targets r1 c1) \<noteq> []"
    using loop_body_dead_end [OF inv ne] body by auto
  from loop_body_continue [OF inv ne mv] body
  have "kt = mark kt1 r1 c1 step1" "path = path1 @ [(r1, c1)]" "loop_inv kt path r c (step1 + 1)"
    by auto
  with same len step show ?case by simp
qed

lemma loop_head_run:
  "loop_head kt0 k = Some (kt, path, r, c, step) \<Longrightarrow> tour_loop kt path r c step = solve_outcome kt0"
proof (induction k arbitrary: kt path r c step)
  case 0
  then show ?case
    by (cases "self_start kt0") (auto simp: solve_outcome_def)
next
  case (Suc k)
  from Suc.prems obtain kt1 path1 r1 c1 step1
    where head: "loop_head kt0 k = Some (kt1, path1, r1, c1, step1)"
      and lt: "step1 < self_n kt1 * self_n kt1"
      and body: "loop_body kt1 path1 r1 c1 step1 = (Continue path r c, kt)"
      and step: "step = step1 + 1"
    by (auto split: option.splits if_splits prod.splits flow.splits)
  from lt body step have "tour_loop kt1 path1 r1 c1 step1 = tour_loop kt path r c step"
    by (simp add: tour_loop.simps [of kt1 path1 r1 c1 step1])
  with Suc.IH [OF head] show ?case by simp
qed

subsection \<open>The last pass\<close>

lemma visit_n: "visit kt path r c step = Inr (kt', path') \<Longrightarrow> self_n kt' = self_n kt"
  by (auto simp: visit_def split: sum.splits)

lemma loop_body_last_pass:
  assumes "step = self_n kt * self_n kt - 1"
  shows "loop_body kt path r c step =
     (case visit kt path r c step of
        Inl e \<Rightarrow> (Stop (Raised e), kt)
      | Inr (kt', path') \<Rightarrow> (Stop (ReturnPath path'), kt'))"
proof (cases "visit kt path r c step")
  case (Inl e)
  then show ?thesis by (simp add: loop_body_def)
next
  case (Inr v)
  obtain kt' path' where v: "v = (kt', path')" by (cases v)
  with Inr visit_n [of kt path r c step kt' path'] assms show ?thesis
    by (simp add: loop_body_def)
qed

lemma returned_Some: "returned out = Inr (Some p) \<Longrightarrow> out = ReturnPath p"
  by (cases out) simp_all

section \<open>The claims of the specification\<close>

subsection \<open>Construction\<close>

text \<open>
  Claim C3 says that construction raises a configuration error exactly when \<open>N < 1\<close> or
  the start square lies outside the board. The constructor never looks at the start
  square: on a 5 by 5 board the start \<open>(5, 0)\<close>, whose row is out of range, is accepted.
\<close>

theorem init_accepts_out_of_range_start:
  "init 5 (5, 0) = Inr (engine 5 (5, 0)) \<and> \<not> in_bounds (engine 5 (5, 0)) 5 0"
  by (simp add: init_def engine_def in_bounds_def)

text \<open>
  Claim C3, as the code has it: construction raises, with \<^verbatim>\<open>ValueError\<close>, exactly when
  \<open>N < 1\<close>, and then yields no engine; for every \<open>N \<ge> 1\<close> and every start square, in
  range or not, it yields an engine of that size and that start square whose board is
  \<open>N\<close> by \<open>N\<close> and all unvisited.
\<close>

theorem init_checks_size_only:
  "((\<exists>e. init k s = Inl e) = (k < 1)) \<and>
   (k < 1 \<longrightarrow> init k s = Inl ValueError) \<and>
   (1 \<le> k \<longrightarrow>
      (\<exists>kt. init k s = Inr kt \<and> self_n kt = k \<and> self_start kt = s \<and> wf_board kt \<and>
         (\<forall>r c. in_bounds kt r c \<longrightarrow> cell kt r c = - 1)))"
  by (auto simp: init_def wf_board_fresh cell_fresh)

theorem init_checks_size_only_witness:
  "init 0 (0, 0) = Inl ValueError \<and>
   (\<exists>kt. init 5 (5, 0) = Inr kt \<and> self_n kt = 5 \<and> self_start kt = (5, 0) \<and> wf_board kt \<and>
      (\<forall>r c. in_bounds kt r c \<longrightarrow> cell kt r c = - 1))"
  using init_checks_size_only [of 0 "(0, 0)"] init_checks_size_only [of 5 "(5, 0)"]
  by simp

subsection \<open>Legal moves and their ranking\<close>

text \<open>
  Claim C6: on a board of the engine's size, for every square \<open>(r, c)\<close>, the legal moves
  are the eight offsets applied in their declared order, filtered by "in bounds and
  unvisited", in that same order; hence no square returned is out of bounds or visited.
\<close>

theorem neighbors_free_targets_in_offset_order:
  assumes "wf_board kt"
  shows "neighbors kt r c =
           Inr (filter (\<lambda>p. in_bounds kt (fst p) (snd p) \<and> cell kt (fst p) (snd p) = - 1)
                  (map (\<lambda>(dr, dc). (r + dr, c + dc))
                     [(2, 1), (1, 2), (- 1, 2), (- 2, 1), (- 2, - 1), (- 1, - 2), (1, - 2), (2, - 1)]))
         \<and> (\<forall>ms. neighbors kt r c = Inr ms \<longrightarrow>
              (\<forall>p \<in> set ms. in_bounds kt (fst p) (snd p) \<and> cell kt (fst p) (snd p) = - 1))"
proof
  have fs: "free_square kt = (\<lambda>p. in_bounds kt (fst p) (snd p) \<and> cell kt (fst p) (snd p) = - 1)"
    by (simp add: fun_eq_iff free_square_def)
  show "neighbors kt r c =
           Inr (filter (\<lambda>p. in_bounds kt (fst p) (snd p) \<and> cell kt (fst p) (snd p) = - 1)
                  (map (\<lambda>(dr, dc). (r + dr, c + dc))
                     [(2, 1), (1, 2), (- 1, 2), (- 2, 1), (- 2, - 1), (- 1, - 2), (1, - 2), (2, - 1)]))"
    by (simp only: neighbors_wf [OF assms] targets_def KNIGHT_MOVES_def fs)
  show "\<forall>ms. neighbors kt r c = Inr ms \<longrightarrow>
          (\<forall>p \<in> set ms. in_bounds kt (fst p) (snd p) \<and> cell kt (fst p) (snd p) = - 1)"
    by (auto simp: neighbors_wf [OF assms] free_square_def)
qed

theorem neighbors_free_targets_in_offset_order_witness:
  "wf_board midgame3 \<and> neighbors midgame3 1 0 = Inr [(2, 2), (0, 2)] \<and>
   in_bounds midgame3 2 2 \<and> cell midgame3 2 2 = - 1 \<and>
   in_bounds midgame3 0 2 \<and> cell midgame3 0 2 = - 1"
proof -
  have wf: "wf_board midgame3"
    by (simp add: wf_board_def midgame3_def)
  have e: "neighbors midgame3 1 0 = Inr [(2, 2), (0, 2)]"
    by code_simp
  from neighbors_free_targets_in_offset_order [OF wf, of 1 0, THEN conjunct2] e
  have "\<forall>p \<in> set [(2, 2), (0, 2)].
          in_bounds midgame3 (fst p) (snd p) \<and> cell midgame3 (fst p) (snd p) = - 1"
    by blast
  then have "in_bounds midgame3 2 2 \<and> cell midgame3 2 2 = - 1 \<and>
     in_bounds midgame3 0 2 \<and> cell midgame3 0 2 = - 1"
    by simp
  with wf e show ?thesis by blast
qed

text \<open>
  Claim C10: the free-square test answers \<open>False\<close> for every coordinate pair out of
  bounds without reading the board, whatever the board is; on a board of the engine's
  size an in-bounds pair indexes a cell that exists, with non-negative indices, so the test
  and the enumeration of legal moves return a value, never an exception, for all integer
  coordinates.
\<close>

theorem is_free_neighbors_total:
  "(\<not> in_bounds kt r c \<longrightarrow> is_free kt r c = Inr False) \<and>
   (wf_board kt \<longrightarrow>
      (in_bounds kt r c \<longrightarrow>
         0 \<le> r \<and> r < int (length (self_board kt)) \<and>
         0 \<le> c \<and> c < int (length (self_board kt ! nat r))) \<and>
      is_free kt r c = Inr (in_bounds kt r c \<and> self_board kt ! nat r ! nat c = - 1) \<and>
      (\<exists>ms. neighbors kt r c = Inr ms))"
proof -
  have 1: "is_free kt r c = Inr False" if "\<not> in_bounds kt r c"
    using that by (simp add: is_free_def)
  have 2: "0 \<le> r \<and> r < int (length (self_board kt)) \<and> 0 \<le> c \<and> c < int (length (self_board kt ! nat r))"
    if wf: "wf_board kt" and ib: "in_bounds kt r c"
    using wf ib wf_board_row [OF wf ib] by (simp add: in_bounds_def wf_board_def)
  have 3: "is_free kt r c = Inr (in_bounds kt r c \<and> self_board kt ! nat r ! nat c = - 1)"
    if "wf_board kt"
    using that by (simp add: is_free_wf free_square_def cell_def)
  have 4: "\<exists>ms. neighbors kt r c = Inr ms" if "wf_board kt"
    using that by (simp add: neighbors_wf)
  from 1 2 3 4 show ?thesis by blast
qed

theorem is_free_neighbors_total_witness:
  "wf_board midgame3 \<and> \<not> in_bounds midgame3 (- 1) 3 \<and> in_bounds midgame3 2 1 \<and>
   is_free midgame3 (- 1) 3 = Inr False \<and> is_free midgame3 2 1 = Inr False \<and>
   (\<exists>ms. neighbors midgame3 2 1 = Inr ms)"
proof -
  have wf: "wf_board midgame3"
    by (simp add: wf_board_def midgame3_def)
  have o: "\<not> in_bounds midgame3 (- 1) 3" and i: "in_bounds midgame3 2 1"
    by (simp_all add: in_bounds_def midgame3_def)
  have v: "self_board midgame3 ! nat 2 ! nat 1 = 1"
    by (simp add: midgame3_def)
  from is_free_neighbors_total [of midgame3 "- 1" 3] o
  have 1: "is_free midgame3 (- 1) 3 = Inr False" by blast
  from is_free_neighbors_total [of midgame3 2 1] wf i v
  have 2: "is_free midgame3 2 1 = Inr False \<and> (\<exists>ms. neighbors midgame3 2 1 = Inr ms)" by simp
  from wf o i 1 2 show ?thesis by blast
qed

text \<open>
  Claim C5: on a board of the engine's size, for every square, the ranked moves are a
  permutation of the legal moves, ascending in onward mobility (the number of legal moves
  of the candidate on the same, unchanged board), with candidates of equal mobility in
  the order of the legal moves; the result depends on the size and the board only.
\<close>

theorem warnsdorff_sort_stable_permutation:
  assumes "wf_board kt"
  shows "\<exists>ls ms. neighbors kt r c = Inr ls \<and> warnsdorff_sort kt r c = Inr ms \<and>
           mset ms = mset ls \<and>
           sorted (map (mobility kt) ms) \<and>
           (\<forall>k. filter (\<lambda>p. mobility kt p = k) ms = filter (\<lambda>p. mobility kt p = k) ls) \<and>
           (\<forall>p \<in> set ls. \<exists>ns. neighbors kt (fst p) (snd p) = Inr ns \<and> mobility kt p = length ns) \<and>
           (\<forall>kt2 :: KnightsTour. self_n kt2 = self_n kt \<and> self_board kt2 = self_board kt \<longrightarrow>
              warnsdorff_sort kt2 r c = Inr ms)"
proof -
  let ?ls = "filter (free_square kt) (targets r c)"
  let ?ms = "sort_key (mobility kt) ?ls"
  have 1: "neighbors kt r c = Inr ?ls" by (rule neighbors_wf [OF assms])
  have 2: "warnsdorff_sort kt r c = Inr ?ms" by (rule warnsdorff_sort_wf [OF assms])
  have 3: "mset ?ms = mset ?ls" by simp
  have 4: "sorted (map (mobility kt) ?ms)" by (rule sorted_sort_key)
  have 5: "\<forall>k. filter (\<lambda>p. mobility kt p = k) ?ms = filter (\<lambda>p. mobility kt p = k) ?ls"
    by (simp add: sort_key_stable)
  have 6: "\<forall>p \<in> set ?ls. \<exists>ns. neighbors kt (fst p) (snd p) = Inr ns \<and> mobility kt p = length ns"
    by (simp add: mobility_def neighbors_wf [OF assms])
  have 7: "\<forall>kt2 :: KnightsTour. self_n kt2 = self_n kt \<and> self_board kt2 = self_board kt \<longrightarrow>
              warnsdorff_sort kt2 r c = Inr ?ms"
  proof (intro allI impI)
    fix kt2 :: KnightsTour
    assume "self_n kt2 = self_n kt \<and> self_board kt2 = self_board kt"
    then have "warnsdorff_sort kt2 r c = warnsdorff_sort kt r c"
      by (intro warnsdorff_sort_same_board [OF assms]) simp_all
    with 2 show "warnsdorff_sort kt2 r c = Inr ?ms" by (simp only:)
  qed
  show ?thesis
    apply (rule exI [of _ ?ls])
    apply (rule exI [of _ ?ms])
    apply (intro conjI 1 2 3 4 5 6 7)
    done
qed


theorem warnsdorff_sort_stable_permutation_witness:
  "wf_board (engine 4 (0, 0)) \<and>
   neighbors (engine 4 (0, 0)) 1 1 = Inr [(3, 2), (2, 3), (0, 3), (3, 0)] \<and>
   warnsdorff_sort (engine 4 (0, 0)) 1 1 = Inr [(0, 3), (3, 0), (3, 2), (2, 3)] \<and>
   mset [(0, 3), (3, 0), (3, 2), (2 :: int, 3 :: int)] = mset [(3, 2), (2, 3), (0, 3), (3, 0)] \<and>
   sorted (map (mobility (engine 4 (0, 0))) [(0, 3), (3, 0), (3, 2), (2, 3)])"
proof -
  have wf: "wf_board (engine 4 (0, 0))"
    by (simp add: wf_board_def engine_def fresh_board_def py_range_def)
  have e1: "neighbors (engine 4 (0, 0)) 1 1 = Inr [(3, 2), (2, 3), (0, 3), (3, 0)]"
    by code_simp
  have e2: "warnsdorff_sort (engine 4 (0, 0)) 1 1 = Inr [(0, 3), (3, 0), (3, 2), (2, 3)]"
    by code_simp
  from warnsdorff_sort_stable_permutation [OF wf, of 1 1]
  obtain ls ms where "neighbors (engine 4 (0, 0)) 1 1 = Inr ls"
    and "warnsdorff_sort (engine 4 (0, 0)) 1 1 = Inr ms"
    and "mset ms = mset ls" and "sorted (map (mobility (engine 4 (0, 0))) ms)"
    by blast
  with e1 e2
  have "mset [(0, 3), (3, 0), (3, 2), (2 :: int, 3 :: int)] = mset [(3, 2), (2, 3), (0, 3), (3, 0)]"
    and "sorted (map (mobility (engine 4 (0, 0))) [(0, 3), (3, 0), (3, 2), (2, 3)])"
    by simp_all
  with wf e1 e2 show ?thesis by blast
qed

subsection \<open>The result of a run\<close>

text \<open>
  Claim C1: for every \<open>N \<ge> 5\<close> and every start square with both coordinates in
  \<open>[0, N)\<close>, \<open>solve_warnsdorff\<close> raises nothing and returns either \<open>None\<close>, the failure,
  or a path of exactly \<open>N * N\<close> pairwise distinct squares whose set is the whole board;
  a shorter path or one with a duplicate is never returned.
\<close>

theorem solve_full_tour_or_failure:
  assumes "5 \<le> self_n kt" "in_bounds kt (fst (self_start kt)) (snd (self_start kt))"
  shows "\<exists>res kt'. solve_warnsdorff kt = (Inr res, kt') \<and>
           (\<forall>p. res = Some p \<longrightarrow>
              int (length p) = self_n kt * self_n kt \<and> distinct p \<and>
              set p = {0..<self_n kt} \<times> {0..<self_n kt})"
proof -
  obtain out kt' where run: "solve_outcome kt = (out, kt')"
    by (cases "solve_outcome kt")
  from assms(1) have n: "1 \<le> self_n kt" by simp
  from solve_outcome_end [OF n assms(2) run] have fin: "tour_end kt out kt'" .
  have sw: "solve_warnsdorff kt = (returned out, kt')"
    by (simp add: solve_warnsdorff_def run)
  show ?thesis
  proof (cases out)
    case (Raised e)
    with fin show ?thesis by (simp add: tour_end_def)
  next
    case (ReturnPath p)
    with fin have len: "int (length p) = self_n kt * self_n kt" and m: "board_matches_path kt' p"
      and same: "self_n kt' = self_n kt"
      by (simp_all add: tour_end_def)
    from m have d: "distinct p" and inb: "\<forall>q \<in> set p. in_bounds kt' (fst q) (snd q)"
      by (simp_all add: board_matches_path_def)
    from n same len have "set p = {0..<self_n kt'} \<times> {0..<self_n kt'}"
      by (intro path_covers_board [OF d inb]) simp_all
    with len d same sw ReturnPath show ?thesis by simp
  next
    case (ReturnNoneDeadEnd p)
    with sw show ?thesis by simp
  next
    case (ReturnNoneAfterLoop p)
    with sw show ?thesis by simp
  qed
qed

theorem solve_full_tour_or_failure_witness:
  "5 \<le> self_n (engine 5 (0, 0)) \<and> in_bounds (engine 5 (0, 0)) 0 0 \<and>
   (\<exists>res kt'. solve_warnsdorff (engine 5 (0, 0)) = (Inr res, kt') \<and>
      (\<forall>p. res = Some p \<longrightarrow>
         int (length p) = 25 \<and> distinct p \<and> set p = {0..<5} \<times> {0..<5}))"
proof -
  have h: "5 \<le> self_n (engine 5 (0, 0))" "in_bounds (engine 5 (0, 0)) 0 0"
    "self_start (engine 5 (0, 0)) = (0, 0)" "self_n (engine 5 (0, 0)) = 5"
    by (simp_all add: engine_def in_bounds_def)
  from solve_full_tour_or_failure [of "engine 5 (0, 0)"] h show ?thesis
    by simp
qed

text \<open>
  Claim C7: in every path that \<open>solve_warnsdorff\<close> returns, whatever the engine, two
  consecutive squares differ by one of the eight offsets of \<open>KNIGHT_MOVES\<close>, that is by
  \<open>(\<plusminus>1, \<plusminus>2)\<close> or \<open>(\<plusminus>2, \<plusminus>1)\<close>.
\<close>

theorem successful_tour_consecutive_knight_offsets:
  assumes "fst (solve_warnsdorff kt) = Inr (Some p)" "Suc i < length p"
  shows "(fst (p ! Suc i) - fst (p ! i), snd (p ! Suc i) - snd (p ! i)) \<in> set KNIGHT_MOVES \<and>
         ((\<bar>fst (p ! Suc i) - fst (p ! i)\<bar> = 1 \<and> \<bar>snd (p ! Suc i) - snd (p ! i)\<bar> = 2) \<or>
          (\<bar>fst (p ! Suc i) - fst (p ! i)\<bar> = 2 \<and> \<bar>snd (p ! Suc i) - snd (p ! i)\<bar> = 1))"
proof -
  obtain out kt' where run: "solve_outcome kt = (out, kt')"
    by (cases "solve_outcome kt")
  with assms(1) have "returned out = Inr (Some p)"
    by (simp add: solve_warnsdorff_def)
  then have "out = ReturnPath p" by (rule returned_Some)
  with run have "knight_path p" by (simp add: solve_outcome_knight_path)
  with assms(2) have "knight_step (p ! i) (p ! Suc i)"
    by (simp add: knight_path_def)
  then have k: "(fst (p ! Suc i) - fst (p ! i), snd (p ! Suc i) - snd (p ! i)) \<in> set KNIGHT_MOVES"
    by (simp add: knight_step_def)
  with KNIGHT_MOVES_geometry [of "fst (p ! Suc i) - fst (p ! i)" "snd (p ! Suc i) - snd (p ! i)"]
  show ?thesis by blast
qed

theorem successful_tour_consecutive_knight_offsets_witness:
  "fst (solve_warnsdorff (engine 5 (0, 0))) = Inr (Some
     [(0, 0), (2, 1), (4, 0), (3, 2), (4, 4), (2, 3), (0, 4), (1, 2), (3, 3),
      (1, 4), (0, 2), (1, 0), (3, 1), (4, 3), (2, 4), (0, 3), (1, 1), (3, 0),
      (4, 2), (3, 4), (1, 3), (0, 1), (2, 2), (4, 1), (2, 0)]) \<and>
   (4 - 2, 0 - 1) \<in> set KNIGHT_MOVES"
proof -
  let ?p = "[(0, 0), (2, 1), (4, 0), (3, 2), (4, 4), (2, 3), (0, 4), (1, 2), (3, 3),
      (1, 4), (0, 2), (1, 0), (3, 1), (4, 3), (2, 4), (0, 3), (1, 1), (3, 0),
      (4, 2), (3, 4), (1, 3), (0, 1), (2, 2), (4, 1), (2 :: int, 0 :: int)]"
  have run: "fst (solve_warnsdorff (engine 5 (0, 0))) = Inr (Some ?p)"
    by code_simp
  have "Suc 1 < length ?p" by simp
  from successful_tour_consecutive_knight_offsets [OF run this, THEN conjunct1]
  have "(4 - 2, 0 - 1) \<in> set KNIGHT_MOVES" by simp
  with run show ?thesis by blast
qed

text \<open>
  Claim C8: for every \<open>N \<ge> 1\<close> and every in-bounds start square the run ends at a
  \<^verbatim>\<open>return\<close> inside the loop: that of line 57, with \<open>N * N\<close> squares visited, or that
  of line 60, at a square without legal moves. It never reaches the \<^verbatim>\<open>return None\<close>
  after the loop and raises no exception. (The run ends at all because \<open>tour_loop\<close> is a
  total function, by its termination proof.)
\<close>

theorem solve_returns_inside_loop:
  assumes "1 \<le> self_n kt" "in_bounds kt (fst (self_start kt)) (snd (self_start kt))"
  shows "(\<exists>p kt'. solve_outcome kt = (ReturnPath p, kt') \<and>
            int (length p) = self_n kt * self_n kt
          \<or> solve_outcome kt = (ReturnNoneDeadEnd p, kt') \<and>
            int (length p) < self_n kt * self_n kt \<and>
            neighbors kt' (fst (last p)) (snd (last p)) = Inr []) \<and>
         (\<forall>p. fst (solve_outcome kt) \<noteq> ReturnNoneAfterLoop p) \<and>
         (\<forall>e. fst (solve_outcome kt) \<noteq> Raised e)"
proof -
  obtain out kt' where run: "solve_outcome kt = (out, kt')"
    by (cases "solve_outcome kt")
  from solve_outcome_end [OF assms run] have fin: "tour_end kt out kt'" .
  show ?thesis
  proof (cases out)
    case (Raised e)
    with fin show ?thesis by (simp add: tour_end_def)
  next
    case (ReturnPath p)
    with fin run show ?thesis by (simp add: tour_end_def)
  next
    case (ReturnNoneDeadEnd p)
    with fin run show ?thesis by (simp add: tour_end_def)
  next
    case (ReturnNoneAfterLoop p)
    with fin show ?thesis by (simp add: tour_end_def)
  qed
qed

theorem solve_returns_inside_loop_witness:
  "1 \<le> self_n (engine 2 (1, 0)) \<and> in_bounds (engine 2 (1, 0)) 1 0 \<and>
   fst (solve_outcome (engine 2 (1, 0))) = ReturnNoneDeadEnd [(1, 0)] \<and>
   (\<exists>p kt'. solve_outcome (engine 2 (1, 0)) = (ReturnPath p, kt') \<and> int (length p) = 4
      \<or> solve_outcome (engine 2 (1, 0)) = (ReturnNoneDeadEnd p, kt') \<and> int (length p) < 4 \<and>
        neighbors kt' (fst (last p)) (snd (last p)) = Inr [])"
proof -
  have h: "1 \<le> self_n (engine 2 (1, 0))" "in_bounds (engine 2 (1, 0)) 1 0"
    "self_start (engine 2 (1, 0)) = (1, 0)" "self_n (engine 2 (1, 0)) = 2"
    by (simp_all add: engine_def in_bounds_def)
  have e: "fst (solve_outcome (engine 2 (1, 0))) = ReturnNoneDeadEnd [(1, 0)]"
    by code_simp
  from solve_returns_inside_loop [of "engine 2 (1, 0)", THEN conjunct1] h
  have "\<exists>p kt'. solve_outcome (engine 2 (1, 0)) = (ReturnPath p, kt') \<and> int (length p) = 4
      \<or> solve_outcome (engine 2 (1, 0)) = (ReturnNoneDeadEnd p, kt') \<and> int (length p) < 4 \<and>
        neighbors kt' (fst (last p)) (snd (last p)) = Inr []"
    by simp
  with h e show ?thesis by blast
qed

text \<open>
  Claim C9: for \<open>N = 1\<close> and start \<open>(0, 0)\<close> the first pass of the loop body, step 0,
  already stops at the \<^verbatim>\<open>return path\<close> of line 57, and \<open>solve_warnsdorff\<close> returns the
  path \<open>[(0, 0)]\<close>, whatever board the engine held before. No moves are computed: on a
  board of size 1 the pass at step 0 is the mark-and-append followed by the return, an
  expression in which \<open>warnsdorff_sort\<close> does not occur.
\<close>

theorem single_square_board_immediate_success:
  "init 1 (0, 0) = Inr (engine 1 (0, 0)) \<and>
   loop_body (engine 1 (0, 0)) [] 0 0 0
     = (Stop (ReturnPath [(0, 0)]), \<lparr>self_n = 1, self_start = (0, 0), self_board = [[0]]\<rparr>) \<and>
   solve_outcome \<lparr>self_n = 1, self_start = (0, 0), self_board = b\<rparr>
     = (ReturnPath [(0, 0)], \<lparr>self_n = 1, self_start = (0, 0), self_board = [[0]]\<rparr>) \<and>
   solve_warnsdorff \<lparr>self_n = 1, self_start = (0, 0), self_board = b\<rparr>
     = (Inr (Some [(0, 0)]), \<lparr>self_n = 1, self_start = (0, 0), self_board = [[0]]\<rparr>) \<and>
   loop_body (kt\<lparr>self_n := 1\<rparr>) path r c 0
     = (case visit (kt\<lparr>self_n := 1\<rparr>) path r c 0 of
          Inl e \<Rightarrow> (Stop (Raised e), kt\<lparr>self_n := 1\<rparr>)
        | Inr (kt', path') \<Rightarrow> (Stop (ReturnPath path'), kt'))"
proof -
  have f: "fresh_board 1 = [[- 1]]"
    by (simp add: fresh_board_def py_range_def)
  have a: "board_assign [[- 1]] 0 0 0 = Inr [[0]]"
    by (simp add: board_assign_def py_getitem_def py_setitem_def py_pos_def)
  have 1: "init 1 (0, 0) = Inr (engine 1 (0, 0))"
    by (simp add: init_def engine_def)
  have 2: "loop_body \<lparr>self_n = 1, self_start = (0, 0), self_board = [[- 1]]\<rparr> [] 0 0 0
     = (Stop (ReturnPath [(0, 0)]), \<lparr>self_n = 1, self_start = (0, 0), self_board = [[0]]\<rparr>)"
    by (simp add: loop_body_def visit_def a)
  have 3: "solve_outcome \<lparr>self_n = 1, self_start = (0, 0), self_board = b\<rparr>
     = (ReturnPath [(0, 0)], \<lparr>self_n = 1, self_start = (0, 0), self_board = [[0]]\<rparr>)"
    by (simp add: solve_outcome_def f 2
        tour_loop.simps [of "\<lparr>self_n = 1, self_start = (0, 0), self_board = [[- 1]]\<rparr>" "[]" 0 0 0])
  have 4: "solve_warnsdorff \<lparr>self_n = 1, self_start = (0, 0), self_board = b\<rparr>
     = (Inr (Some [(0, 0)]), \<lparr>self_n = 1, self_start = (0, 0), self_board = [[0]]\<rparr>)"
    by (simp add: solve_warnsdorff_def 3)
  have 5: "loop_body (kt\<lparr>self_n := 1\<rparr>) path r c 0
     = (case visit (kt\<lparr>self_n := 1\<rparr>) path r c 0 of
          Inl e \<Rightarrow> (Stop (Raised e), kt\<lparr>self_n := 1\<rparr>)
        | Inr (kt', path') \<Rightarrow> (Stop (ReturnPath path'), kt'))"
    by (rule loop_body_last_pass) simp
  from 2 have first: "loop_body (engine 1 (0, 0)) [] 0 0 0
     = (Stop (ReturnPath [(0, 0)]), \<lparr>self_n = 1, self_start = (0, 0), self_board = [[0]]\<rparr>)"
    by (simp add: engine_def f)
  from 1 first 3 4 5 show ?thesis by blast
qed

subsection \<open>The invariant of a run\<close>

text \<open>
  Claim C2 says that at every point of a run the current knight position is the last
  element of the path, or the start square before the first step. At the head of the
  loop this fails from the second pass on: line 62 has already moved \<^verbatim>\<open>r, c\<close> to the
  chosen square, which line 55 appends only in the pass that follows. On the 3 by 3 board
  from \<open>(0, 0)\<close>, when the second pass begins the path is \<open>[(0, 0)]\<close> and the current
  square is \<open>(2, 1)\<close>.
\<close>

theorem current_square_not_last_of_path_at_loop_head:
  "loop_head (engine 3 (0, 0)) 1
     = Some (\<lparr>self_n = 3, self_start = (0, 0),
               self_board = [[0, - 1, - 1], [- 1, - 1, - 1], [- 1, - 1, - 1]]\<rparr>,
             [(0, 0)], 2, 1, 1) \<and>
   (2, 1) \<noteq> last [(0 :: int, 0 :: int)] \<and>
   (2, 1) \<noteq> self_start (engine 3 (0, 0))"
proof -
  have "loop_head (engine 3 (0, 0)) 1
     = Some (\<lparr>self_n = 3, self_start = (0, 0),
               self_board = [[0, - 1, - 1], [- 1, - 1, - 1], [- 1, - 1, - 1]]\<rparr>,
             [(0, 0)], 2, 1, 1)"
    by code_simp
  then show ?thesis by (simp add: engine_def)
qed

text \<open>
  Claim C2, as the code has it, for a run from an in-bounds start square on a board of
  size \<open>N \<ge> 1\<close>. At the head of every pass of the loop, and again once lines 54-55 of
  that pass have marked and appended the current square: a cell of the board is marked
  exactly when its square is in the path, its step index is the position of the square
  in the path, and no square is in the path twice. After lines 54-55 the current square
  is the last element of the path. At the head of a pass it is not in the path yet: it is
  the start square before the first step, and later the chosen next square, unvisited and
  one knight offset from the last element of the path.
\<close>

theorem board_matches_path_during_run:
  assumes "1 \<le> self_n kt0" "in_bounds kt0 (fst (self_start kt0)) (snd (self_start kt0))"
    "loop_head kt0 k = Some (kt, path, r, c, step)"
  shows "board_matches_path kt path \<and> length path = k \<and> step = int k \<and>
         (r, c) \<notin> set path \<and>
         (path = [] \<longrightarrow> (r, c) = self_start kt0) \<and>
         (path \<noteq> [] \<longrightarrow> knight_step (last path) (r, c) \<and> free_square kt (r, c)) \<and>
         (\<exists>kt' path'. visit kt path r c step = Inr (kt', path') \<and>
            board_matches_path kt' path' \<and> path' \<noteq> [] \<and> last path' = (r, c))"
proof -
  from loop_head_inv [OF assms] have inv: "loop_inv kt path r c step"
    and len: "length path = k" and k0: "k = 0 \<longrightarrow> (r, c) = self_start kt0"
    by simp_all
  from inv have wf: "wf_board kt" and ib: "in_bounds kt r c" and st: "step = int (length path)"
    and m: "board_matches_path kt path" and new: "(r, c) \<notin> set path"
    and adj: "path = [] \<or> knight_step (last path) (r, c)"
    by (simp_all add: loop_inv_def)
  from m new ib have free: "free_square kt (r, c)"
    by (auto simp: board_matches_path_def free_square_def)
  have v: "visit kt path r c step = Inr (mark kt r c step, path @ [(r, c)])"
    by (rule visit_in_bounds [OF wf ib])
  have m': "board_matches_path (mark kt r c step) (path @ [(r, c)])"
    using board_matches_path_mark [OF wf ib m new] st by simp
  from m len st new k0 adj free v m' show ?thesis by auto
qed

theorem board_matches_path_during_run_witness:
  "loop_head (engine 3 (0, 0)) 2
     = Some (\<lparr>self_n = 3, self_start = (0, 0),
               self_board = [[0, - 1, - 1], [- 1, - 1, - 1], [- 1, 1, - 1]]\<rparr>,
             [(0, 0), (2, 1)], 0, 2, 2) \<and>
   board_matches_path midgame3 [(0, 0), (2, 1)] \<and>
   knight_step (2, 1) (0, 2) \<and> free_square midgame3 (0, 2) \<and>
   (\<exists>kt' path'. visit midgame3 [(0, 0), (2, 1)] 0 2 2 = Inr (kt', path') \<and>
      board_matches_path kt' path' \<and> path' \<noteq> [] \<and> last path' = (0, 2))"
proof -
  have h: "1 \<le> self_n (engine 3 (0, 0))"
    "in_bounds (engine 3 (0, 0)) (fst (self_start (engine 3 (0, 0)))) (snd (self_start (engine 3 (0, 0))))"
    by (simp_all add: engine_def in_bounds_def)
  have e: "loop_head (engine 3 (0, 0)) 2 = Some (midgame3, [(0, 0), (2, 1)], 0, 2, 2)"
    by code_simp
  from board_matches_path_during_run [OF h e] e show ?thesis
    by (simp add: midgame3_def)
qed

subsection \<open>The dead end\<close>

text \<open>
  Claim C4 says that at a dead end \<open>solve_warnsdorff\<close> returns a failure result carrying
  the partial path and the step count reached. It returns \<^verbatim>\<open>None\<close>, line 60: on the
  2 by 2 board the run from \<open>(0, 0)\<close> is stuck after one square and on the 3 by 3 board
  after eight, and the caller receives the same value both times.
\<close>

theorem dead_end_returns_bare_None:
  "fst (solve_outcome (engine 2 (0, 0))) = ReturnNoneDeadEnd [(0, 0)] \<and>
   fst (solve_warnsdorff (engine 2 (0, 0))) = Inr None \<and>
   fst (solve_outcome (engine 3 (0, 0)))
     = ReturnNoneDeadEnd [(0, 0), (2, 1), (0, 2), (1, 0), (2, 2), (0, 1), (2, 0), (1, 2)] \<and>
   fst (solve_warnsdorff (engine 3 (0, 0))) = Inr None"
proof -
  have 1: "fst (solve_outcome (engine 2 (0, 0))) = ReturnNoneDeadEnd [(0, 0)]"
    by code_simp
  have 2: "fst (solve_warnsdorff (engine 2 (0, 0))) = Inr None"
    by code_simp
  have 3: "fst (solve_outcome (engine 3 (0, 0)))
     = ReturnNoneDeadEnd [(0, 0), (2, 1), (0, 2), (1, 0), (2, 2), (0, 1), (2, 0), (1, 2)]"
    by code_simp
  have 4: "fst (solve_warnsdorff (engine 3 (0, 0))) = Inr None"
    by code_simp
  from 1 2 3 4 show ?thesis by blast
qed

text \<open>
  Claim C4, as the code has it, for a run from an in-bounds start square on a board of
  size \<open>N \<ge> 1\<close>: when a pass of the loop has marked and appended its square at a step
  before \<open>N * N - 1\<close> and that square has no legal move, \<open>solve_warnsdorff\<close> returns
  \<^verbatim>\<open>None\<close>, which carries neither the path nor the step; the partial path stays
  behind on the engine's board only, each of its squares holding its step index.
\<close>

theorem dead_end_returns_None_board_keeps_path:
  assumes "1 \<le> self_n kt0" "in_bounds kt0 (fst (self_start kt0)) (snd (self_start kt0))"
    and head: "loop_head kt0 k = Some (kt, path, r, c, step)"
    and vis: "visit kt path r c step = Inr (kt', path')"
    and before: "step \<noteq> self_n kt0 * self_n kt0 - 1"
    and stuck: "warnsdorff_sort kt' r c = Inr []"
  shows "solve_outcome kt0 = (ReturnNoneDeadEnd path', kt') \<and>
         solve_warnsdorff kt0 = (Inr None, kt') \<and>
         path' = path @ [(r, c)] \<and> int (length path') = step + 1 \<and>
         board_matches_path kt' path'"
proof -
  from loop_head_inv [OF assms(1,2) head] have inv: "loop_inv kt path r c step"
    and same: "self_n kt = self_n kt0"
    by simp_all
  from inv have wf: "wf_board kt" and ib: "in_bounds kt r c" and st: "step = int (length path)"
    and lt: "step < self_n kt * self_n kt"
    and m: "board_matches_path kt path" and new: "(r, c) \<notin> set path"
    by (simp_all add: loop_inv_def)
  from vis visit_in_bounds [OF wf ib, of path step]
  have kt': "kt' = mark kt r c step" and path': "path' = path @ [(r, c)]"
    by simp_all
  have wf': "wf_board kt'"
    unfolding kt' by (rule wf_board_mark [OF wf ib])
  from stuck warnsdorff_sort_wf [OF wf', of r c]
  have "sort_key (mobility kt') (filter (free_square kt') (targets r c)) = []"
    by simp
  then have "length (filter (free_square kt') (targets r c)) = 0"
    by (metis length_sort list.size(3))
  then have none: "filter (free_square (mark kt r c step)) (targets r c) = []"
    by (simp add: kt')
  from before same have ne: "step \<noteq> self_n kt * self_n kt - 1" by simp
  from loop_body_dead_end [OF inv ne none] lt
  have "tour_loop kt path r c step = (ReturnNoneDeadEnd path', kt')"
    by (simp add: tour_loop.simps [of kt path r c step] kt' path')
  with loop_head_run [OF head] have run: "solve_outcome kt0 = (ReturnNoneDeadEnd path', kt')"
    by simp
  have m': "board_matches_path kt' path'"
    using board_matches_path_mark [OF wf ib m new] st by (simp add: kt' path')
  from run m' st path' show ?thesis
    by (simp add: solve_warnsdorff_def)
qed

theorem dead_end_returns_None_board_keeps_path_witness:
  "loop_head (engine 3 (0, 0)) 7
     = Some (\<lparr>self_n = 3, self_start = (0, 0),
               self_board = [[0, 5, 2], [3, - 1, - 1], [6, 1, 4]]\<rparr>,
             [(0, 0), (2, 1), (0, 2), (1, 0), (2, 2), (0, 1), (2, 0)], 1, 2, 7) \<and>
   solve_warnsdorff (engine 3 (0, 0))
     = (Inr None, \<lparr>self_n = 3, self_start = (0, 0),
                    self_board = [[0, 5, 2], [3, - 1, 7], [6, 1, 4]]\<rparr>) \<and>
   board_matches_path
     \<lparr>self_n = 3, self_start = (0, 0), self_board = [[0, 5, 2], [3, - 1, 7], [6, 1, 4]]\<rparr>
     [(0, 0), (2, 1), (0, 2), (1, 0), (2, 2), (0, 1), (2, 0), (1, 2)]"
proof -
  let ?kt = "\<lparr>self_n = 3, self_start = (0, 0), self_board = [[0, 5, 2], [3, - 1, - 1], [6, 1, 4]]\<rparr>"
  let ?kt' = "\<lparr>self_n = 3, self_start = (0, 0), self_board = [[0, 5, 2], [3, - 1, 7], [6, 1, 4]]\<rparr>"
  let ?path = "[(0, 0), (2, 1), (0, 2), (1, 0), (2, 2), (0, 1), (2 :: int, 0 :: int)]"
  have h: "1 \<le> self_n (engine 3 (0, 0))"
    "in_bounds (engine 3 (0, 0)) (fst (self_start (engine 3 (0, 0)))) (snd (self_start (engine 3 (0, 0))))"
    "7 \<noteq> self_n (engine 3 (0, 0)) * self_n (engine 3 (0, 0)) - 1"
    by (simp_all add: engine_def in_bounds_def)
  have e: "loop_head (engine 3 (0, 0)) 7 = Some (?kt, ?path, 1, 2, 7)"
    by code_simp
  have v: "visit ?kt ?path 1 2 7 = Inr (?kt', ?path @ [(1, 2)])"
    by code_simp
  have s: "warnsdorff_sort ?kt' 1 2 = Inr []"
    by code_simp
  from dead_end_returns_None_board_keeps_path [OF h(1,2) e v h(3) s] e show ?thesis
    by simp
qed

end
